theory Spec2Isabelle
  imports Main "HOL-Library.Multiset"
begin

section \<open>Values shared by the git service and the webview\<close>

text \<open>
  A value thrown by a backend call, as the \<open>catch\<close> blocks of the service read it:
  \<open>error instanceof Error ? error.message : String(error)\<close>. An \<open>Error\<close> object
  is kept with its message, any other thrown value with the string \<open>String\<close> gives it.
\<close>

datatype js_thrown = ErrorObject string | OtherValue string

fun errorMessage :: "js_thrown \<Rightarrow> string" where
  "errorMessage (ErrorObject m) = m"
| "errorMessage (OtherValue s) = s"

text \<open>\<open>String.prototype.startsWith\<close> on the code units of the two strings.\<close>

definition startsWith :: "string \<Rightarrow> string \<Rightarrow> bool" where
  "startsWith s t = (take (length t) s = t)"

text \<open>\<open>Array.prototype.findIndex\<close>; the result \<open>-1\<close> of the source is \<open>None\<close>.\<close>

fun findIndex :: "('a \<Rightarrow> bool) \<Rightarrow> 'a list \<Rightarrow> nat option" where
  "findIndex P [] = None"
| "findIndex P (x # xs) = (if P x then Some 0 else map_option Suc (findIndex P xs))"

section \<open>The data model of gitService.ts\<close>

datatype FileStatus = modified | added | deleted | renamed | untracked | conflicted

text \<open>
  Modelled from the spec: the \<open>Status\<close> enum is declared in \<open>types/git\<close>, which is not
  among the sources. Its members are the raw status codes that \<open>convertStatus\<close> and
  \<open>isStaged\<close> name; \<open>OTHER_STATUS\<close> stands for every member they do not name, which
  \<open>convertStatus\<close> sends to its \<open>default\<close> branch.
\<close>

datatype Status =
    INDEX_MODIFIED | INDEX_ADDED | INDEX_DELETED | INDEX_RENAMED | INDEX_COPIED
  | MODIFIED | DELETED | UNTRACKED | INTENT_TO_ADD
  | ADDED_BY_US | ADDED_BY_THEM | DELETED_BY_US | DELETED_BY_THEM
  | BOTH_ADDED | BOTH_DELETED | BOTH_MODIFIED
  | OTHER_STATUS nat

text \<open>A \<open>Uri\<close>, by the two things the service reads of it: \<open>fsPath\<close> and \<open>toString()\<close>.\<close>

record Uri =
  fsPath :: string
  toString :: string

record Change =
  uri :: Uri
  status :: Status

text \<open>
  Modelled from the spec: \<open>Branch\<close> is declared in \<open>types/git\<close>, which is not among the
  sources. It carries the tracking metadata: \<open>upstream\<close> is absent when the branch has no
  upstream tracking branch configured, and \<open>ahead\<close> and \<open>behind\<close> are the optional counts
  that \<open>getSyncStatus\<close> reads. The spec's glossary gives them as the commit-count
  divergence between the local branch tip and its upstream: numbers of commits, hence
  natural numbers.
\<close>

record Branch =
  name :: "string option"
  upstream :: "string option"
  ahead :: "nat option"
  behind :: "nat option"

record RepositoryState =
  HEAD :: "Branch option"
  workingTreeChanges :: "Change list"
  indexChanges :: "Change list"

text \<open>An entry of \<open>repository.log\<close>; \<open>undoLastCommit\<close> only counts the entries.\<close>

record Commit =
  hash :: string

text \<open>
  The repository handle over a backend state \<open>'w\<close> (the repository on disk). \<open>state\<close> reads
  the current change lists and branch; \<open>add\<close> and \<open>commit\<close> are the awaited calls that
  either resolve or reject with a thrown value, and leave a new backend state either way;
  \<open>log\<close> is a query.
\<close>

record 'w Repository =
  rootUri :: Uri
  state :: "'w \<Rightarrow> RepositoryState"
  add :: "string list \<Rightarrow> 'w \<Rightarrow> js_thrown option \<times> 'w"
  commit :: "string \<Rightarrow> 'w \<Rightarrow> js_thrown option \<times> 'w"
  log :: "nat \<Rightarrow> 'w \<Rightarrow> js_thrown + Commit list"

record 'w API =
  repositories :: "'w Repository list"
  getRepository :: "Uri \<Rightarrow> 'w Repository option"

text \<open>
  What the service reads of the \<open>vscode\<close> namespace: the document uri of
  \<open>window.activeTextEditor\<close> and \<open>commands.executeCommand\<close>.
\<close>

record 'w VSCode =
  activeTextEditor :: "Uri option"
  executeCommand :: "string \<Rightarrow> 'w \<Rightarrow> js_thrown option \<times> 'w"

record 'w GitService =
  api :: "'w API option"

record FileChange =
  path :: string
  relativePath :: string
  status :: FileStatus
  staged :: bool
  uri :: string

record CommitTask =
  filePath :: string
  message :: string

record CommitResult =
  success :: bool
  filePath :: string
  message :: "string option"
  error :: "string option"

record BulkCommitResult =
  successful :: "CommitResult list"
  failed :: "CommitResult list"
  totalCommits :: nat

text \<open>The \<open>{ success, error? }\<close> object that push, pull, fetch and undo return.\<close>

record OperationResult =
  success :: bool
  error :: "string option"

record RepoSyncStatus =
  ahead :: int
  behind :: int

text \<open>The backend calls a service method makes, in the order it makes them.\<close>

datatype call =
    CallAdd "string list"
  | CallCommit string
  | CallLog nat
  | CallExecuteCommand string

section \<open>Finding the repository\<close>

definition getActiveRepository :: "'w VSCode \<Rightarrow> 'w GitService \<Rightarrow> 'w Repository option" where
  "getActiveRepository vs this =
     (case api this of
        None \<Rightarrow> None
      | Some a \<Rightarrow>
          if length (repositories a) = 0 then None
          else (case activeTextEditor vs of
                  Some u \<Rightarrow>
                    (case getRepository a u of
                       Some r \<Rightarrow> Some r
                     | None \<Rightarrow> Some (hd (repositories a)))
                | None \<Rightarrow> Some (hd (repositories a))))"

text \<open>\<open>repo || this.getActiveRepository()\<close>, the first line of every method below.\<close>

definition repoOrActive ::
  "'w VSCode \<Rightarrow> 'w GitService \<Rightarrow> 'w Repository option \<Rightarrow> 'w Repository option" where
  "repoOrActive vs this repo =
     (case repo of Some r \<Rightarrow> Some r | None \<Rightarrow> getActiveRepository vs this)"

section \<open>Status reconciliation\<close>

fun convertStatus :: "Status \<Rightarrow> FileStatus" where
  "convertStatus INDEX_MODIFIED = modified"
| "convertStatus MODIFIED = modified"
| "convertStatus INDEX_ADDED = added"
| "convertStatus UNTRACKED = added"
| "convertStatus INTENT_TO_ADD = added"
| "convertStatus INDEX_DELETED = deleted"
| "convertStatus DELETED = deleted"
| "convertStatus INDEX_RENAMED = renamed"
| "convertStatus INDEX_COPIED = renamed"
| "convertStatus ADDED_BY_US = conflicted"
| "convertStatus ADDED_BY_THEM = conflicted"
| "convertStatus DELETED_BY_US = conflicted"
| "convertStatus DELETED_BY_THEM = conflicted"
| "convertStatus BOTH_ADDED = conflicted"
| "convertStatus BOTH_DELETED = conflicted"
| "convertStatus BOTH_MODIFIED = conflicted"
| "convertStatus (OTHER_STATUS n) = modified"

definition isStaged :: "Status \<Rightarrow> bool" where
  "isStaged s =
     (s = INDEX_MODIFIED \<or> s = INDEX_ADDED \<or> s = INDEX_DELETED \<or>
      s = INDEX_RENAMED \<or> s = INDEX_COPIED)"

text \<open>\<open>replace(/\\/g, '/')\<close>: every backslash becomes a slash.\<close>

definition slashes :: "string \<Rightarrow> string" where
  "slashes s = map (\<lambda>c. if c = CHR 0x5C then CHR ''/'' else c) s"

definition getRelativePath :: "string \<Rightarrow> string \<Rightarrow> string" where
  "getRelativePath absolutePath rootPath =
     (if startsWith absolutePath rootPath
      then slashes (drop (length rootPath + 1) absolutePath)
      else slashes absolutePath)"

text \<open>The object pushed for one change, with the given \<open>staged\<close> flag.\<close>

definition toFileChange :: "string \<Rightarrow> bool \<Rightarrow> Change \<Rightarrow> FileChange" where
  "toFileChange rootPath st change =
     \<lparr> path = fsPath (Change.uri change),
       relativePath = getRelativePath (fsPath (Change.uri change)) rootPath,
       status = convertStatus (Change.status change),
       staged = st,
       uri = toString (Change.uri change) \<rparr>"

text \<open>The first loop of \<open>getChangedFiles\<close>, over \<open>workingTreeChanges\<close>.\<close>

fun pushWorkingTree :: "string \<Rightarrow> Change list \<Rightarrow> FileChange list \<Rightarrow> FileChange list" where
  "pushWorkingTree rootPath [] changes = changes"
| "pushWorkingTree rootPath (change # rest) changes =
     pushWorkingTree rootPath rest (changes @ [toFileChange rootPath False change])"

text \<open>The second loop, over \<open>indexChanges\<close>.\<close>

fun mergeIndex :: "string \<Rightarrow> Change list \<Rightarrow> FileChange list \<Rightarrow> FileChange list" where
  "mergeIndex rootPath [] changes = changes"
| "mergeIndex rootPath (change # rest) changes =
     (case findIndex (\<lambda>c. path c = fsPath (Change.uri change)) changes of
        Some existingIndex \<Rightarrow>
          mergeIndex rootPath rest
            (changes[existingIndex := (changes ! existingIndex)\<lparr>staged := True\<rparr>])
      | None \<Rightarrow>
          mergeIndex rootPath rest (changes @ [toFileChange rootPath True change]))"

definition getChangedFiles ::
  "'w VSCode \<Rightarrow> 'w GitService \<Rightarrow> 'w Repository option \<Rightarrow> 'w \<Rightarrow> FileChange list" where
  "getChangedFiles vs this repo w =
     (case repoOrActive vs this repo of
        None \<Rightarrow> []
      | Some repository \<Rightarrow>
          (let rootPath = fsPath (rootUri repository)
           in mergeIndex rootPath (indexChanges (state repository w))
                (pushWorkingTree rootPath (workingTreeChanges (state repository w)) [])))"

section \<open>Bulk commit\<close>

text \<open>
  The \<open>try\<close> block of one iteration up to the push onto \<open>successful\<close>: stage the task's
  file, then commit with the task's message. A rejected \<open>add\<close> skips the commit.
\<close>

definition stageAndCommit ::
  "'w Repository \<Rightarrow> CommitTask \<Rightarrow> 'w \<Rightarrow> js_thrown option \<times> 'w \<times> call list" where
  "stageAndCommit repository task w =
     (case add repository [CommitTask.filePath task] w of
        (Some e, w1) \<Rightarrow> (Some e, w1, [CallAdd [CommitTask.filePath task]])
      | (None, w1) \<Rightarrow>
          (case commit repository (CommitTask.message task) w1 of
             (r, w2) \<Rightarrow>
               (r, w2, [CallAdd [CommitTask.filePath task],
                        CallCommit (CommitTask.message task)])))"

definition succeeded :: "CommitTask \<Rightarrow> CommitResult" where
  "succeeded task =
     \<lparr> CommitResult.success = True,
       filePath = CommitTask.filePath task,
       message = Some (CommitTask.message task),
       error = None \<rparr>"

definition failedWith :: "CommitTask \<Rightarrow> js_thrown \<Rightarrow> CommitResult" where
  "failedWith task e =
     \<lparr> CommitResult.success = False,
       filePath = CommitTask.filePath task,
       message = Some (CommitTask.message task),
       error = Some (errorMessage e) \<rparr>"

text \<open>
  The \<open>for\<close> loop of \<open>bulkCommit\<close>: the result object, the backend state and the calls
  made so far are threaded through the iterations.
\<close>

fun commitLoop ::
  "'w Repository \<Rightarrow> CommitTask list \<Rightarrow> BulkCommitResult \<Rightarrow> 'w \<Rightarrow> call list
     \<Rightarrow> BulkCommitResult \<times> 'w \<times> call list" where
  "commitLoop repository [] result w calls = (result, w, calls)"
| "commitLoop repository (task # rest) result w calls =
     (case stageAndCommit repository task w of
        (None, w1, cs) \<Rightarrow>
          commitLoop repository rest
            (result\<lparr>successful := successful result @ [succeeded task]\<rparr>) w1 (calls @ cs)
      | (Some e, w1, cs) \<Rightarrow>
          commitLoop repository rest
            (result\<lparr>failed := failed result @ [failedWith task e]\<rparr>) w1 (calls @ cs))"

text \<open>
  \<open>bulkCommit\<close>: \<open>Inl\<close> is the rejected promise (the thrown value), \<open>Inr\<close> the resolved one.
\<close>

definition bulkCommit ::
  "'w VSCode \<Rightarrow> 'w GitService \<Rightarrow> CommitTask list \<Rightarrow> 'w Repository option \<Rightarrow> 'w
     \<Rightarrow> (js_thrown + BulkCommitResult) \<times> 'w \<times> call list" where
  "bulkCommit vs this tasks repo w =
     (case repoOrActive vs this repo of
        None \<Rightarrow> (Inl (ErrorObject ''No repository found''), w, [])
      | Some repository \<Rightarrow>
          (case commitLoop repository tasks
                  \<lparr> successful = [], failed = [], totalCommits = length tasks \<rparr> w [] of
             (result, w', calls) \<Rightarrow> (Inr result, w', calls)))"

section \<open>Undo and sync status\<close>




text \<open>
  \<open>x || 0\<close> on an optional count: an absent count (and a zero one) gives \<open>0\<close>. The
  result is the \<open>number\<close> of the returned object.
\<close>

definition orZero :: "nat option \<Rightarrow> int" where
  "orZero x = (case x of None \<Rightarrow> 0 | Some n \<Rightarrow> if n = 0 then 0 else int n)"

definition getSyncStatus ::
  "'w VSCode \<Rightarrow> 'w GitService \<Rightarrow> 'w Repository option \<Rightarrow> 'w \<Rightarrow> RepoSyncStatus option" where
  "getSyncStatus vs this repo w =
     (case repoOrActive vs this repo of
        None \<Rightarrow> None
      | Some repository \<Rightarrow>
          (case HEAD (state repository w) of
             None \<Rightarrow> None
           | Some h \<Rightarrow>
               Some \<lparr> ahead = orZero (Branch.ahead h), behind = orZero (Branch.behind h) \<rparr>))"

section \<open>The webview: applying a template\<close>

text \<open>
  The fields of the webview's \<open>AppState\<close> that \<open>applyTemplateToSelected\<close> touches:
  the set of selected paths, in insertion order, and the message map.
\<close>

record AppState =
  selectedFiles :: "string list"
  commitMessages :: "string \<rightharpoonup> string"

text \<open>\<open>this.state.commitMessages.get(path) || ''\<close>.\<close>

definition currentMessage :: "AppState \<Rightarrow> string \<Rightarrow> string" where
  "currentMessage st p = (case commitMessages st p of None \<Rightarrow> [] | Some m \<Rightarrow> m)"

text \<open>
  The body of the \<open>forEach\<close> callback on one message: what the map holds for the path
  afterwards, read through \<open>currentMessage\<close>.
\<close>

definition applyTemplate :: "string \<Rightarrow> string \<Rightarrow> string" where
  "applyTemplate current template =
     (if \<not> startsWith current template then template @ current else current)"

fun applyTemplateEach :: "string \<Rightarrow> string list \<Rightarrow> AppState \<Rightarrow> AppState" where
  "applyTemplateEach template [] st = st"
| "applyTemplateEach template (p # ps) st =
     applyTemplateEach template ps
       (if \<not> startsWith (currentMessage st p) template
        then st\<lparr>commitMessages := (commitMessages st)(p \<mapsto> template @ currentMessage st p)\<rparr>
        else st)"

definition applyTemplateToSelected :: "string \<Rightarrow> AppState \<Rightarrow> AppState" where
  "applyTemplateToSelected template st = applyTemplateEach template (selectedFiles st) st"

section \<open>Notions the properties are stated with\<close>

text \<open>
  The outcome of every task of a batch, in input order: each task is paired with what its
  own staging and commit gave (\<open>None\<close> when both resolved, the thrown value otherwise), at
  the backend state the tasks before it left behind.
\<close>

fun outcomes ::
  "'w Repository \<Rightarrow> CommitTask list \<Rightarrow> 'w \<Rightarrow> (CommitTask \<times> js_thrown option) list" where
  "outcomes repository [] w = []"
| "outcomes repository (task # rest) w =
     (case stageAndCommit repository task w of
        (r, w1, cs) \<Rightarrow> (task, r) # outcomes repository rest w1)"

fun successfulOf :: "(CommitTask \<times> js_thrown option) list \<Rightarrow> CommitResult list" where
  "successfulOf [] = []"
| "successfulOf ((task, None) # rest) = succeeded task # successfulOf rest"
| "successfulOf ((task, Some e) # rest) = successfulOf rest"

fun failedOf :: "(CommitTask \<times> js_thrown option) list \<Rightarrow> CommitResult list" where
  "failedOf [] = []"
| "failedOf ((task, None) # rest) = failedOf rest"
| "failedOf ((task, Some e) # rest) = failedWith task e # failedOf rest"

text \<open>
  What a batch is to do, told from the backend's \<open>add\<close> and \<open>commit\<close> alone: every task,
  in input order, is staged with \<open>add\<close> of its one path and, when the staging resolved,
  committed with its message; whatever the task's attempt gave, the next task starts from
  the backend state that attempt left. \<open>batchRun\<close> gives the attempt of every task and
  the last backend state.
\<close>

datatype attempt = Committed | StagingFailed js_thrown | CommitFailed js_thrown

fun batchRun ::
  "'w Repository \<Rightarrow> CommitTask list \<Rightarrow> 'w \<Rightarrow> (CommitTask \<times> attempt) list \<times> 'w" where
  "batchRun repository [] w = ([], w)"
| "batchRun repository (task # rest) w =
     (case add repository [CommitTask.filePath task] w of
        (Some e, w1) \<Rightarrow>
          ((task, StagingFailed e) # fst (batchRun repository rest w1),
           snd (batchRun repository rest w1))
      | (None, w1) \<Rightarrow>
          (case commit repository (CommitTask.message task) w1 of
             (Some e, w2) \<Rightarrow>
               ((task, CommitFailed e) # fst (batchRun repository rest w2),
                snd (batchRun repository rest w2))
           | (None, w2) \<Rightarrow>
               ((task, Committed) # fst (batchRun repository rest w2),
                snd (batchRun repository rest w2))))"

text \<open>The backend calls of one attempt: a rejected staging is not followed by a commit.\<close>

fun attemptCalls :: "CommitTask \<times> attempt \<Rightarrow> call list" where
  "attemptCalls (task, StagingFailed e) = [CallAdd [CommitTask.filePath task]]"
| "attemptCalls (task, CommitFailed e) =
     [CallAdd [CommitTask.filePath task], CallCommit (CommitTask.message task)]"
| "attemptCalls (task, Committed) =
     [CallAdd [CommitTask.filePath task], CallCommit (CommitTask.message task)]"

text \<open>The entries the spec asks for in \<open>successful\<close> and in \<open>failed\<close>, in input order.\<close>

fun committedResults :: "(CommitTask \<times> attempt) list \<Rightarrow> CommitResult list" where
  "committedResults [] = []"
| "committedResults ((task, Committed) # rest) =
     \<lparr> CommitResult.success = True,
       filePath = CommitTask.filePath task,
       message = Some (CommitTask.message task),
       error = None \<rparr> # committedResults rest"
| "committedResults ((task, StagingFailed e) # rest) = committedResults rest"
| "committedResults ((task, CommitFailed e) # rest) = committedResults rest"

fun failedResults :: "(CommitTask \<times> attempt) list \<Rightarrow> CommitResult list" where
  "failedResults [] = []"
| "failedResults ((task, Committed) # rest) = failedResults rest"
| "failedResults ((task, StagingFailed e) # rest) =
     \<lparr> CommitResult.success = False,
       filePath = CommitTask.filePath task,
       message = Some (CommitTask.message task),
       error = Some (case e of ErrorObject m \<Rightarrow> m | OtherValue s \<Rightarrow> s) \<rparr> # failedResults rest"
| "failedResults ((task, CommitFailed e) # rest) =
     \<lparr> CommitResult.success = False,
       filePath = CommitTask.filePath task,
       message = Some (CommitTask.message task),
       error = Some (case e of ErrorObject m \<Rightarrow> m | OtherValue s \<Rightarrow> s) \<rparr> # failedResults rest"

fun isAdd :: "call \<Rightarrow> bool" where
  "isAdd (CallAdd ps) = True"
| "isAdd c = False"

text \<open>The task a result was made from.\<close>

definition taskOf :: "CommitResult \<Rightarrow> CommitTask" where
  "taskOf c =
     \<lparr> CommitTask.filePath = CommitResult.filePath c,
       CommitTask.message = (case CommitResult.message c of Some m \<Rightarrow> m | None \<Rightarrow> []) \<rparr>"

definition changePath :: "Change \<Rightarrow> string" where
  "changePath change = fsPath (Change.uri change)"

section \<open>A small repository to run the service on\<close>

text \<open>
  The backend state is the repository state together with the messages committed so far.
  Staging \<open>b.txt\<close> is rejected, every other staging and every commit resolves; the undo
  command is rejected, leaving everything as it was, when nothing has been committed.
\<close>

type_synonym demoWorld = "RepositoryState \<times> string list"

definition demoRepo :: "demoWorld Repository" where
  "demoRepo =
     \<lparr> rootUri = \<lparr> fsPath = ''/repo'', toString = ''file:///repo'' \<rparr>,
       state = fst,
       add = (\<lambda>paths w.
                if paths = [''/repo/b.txt'']
                then (Some (ErrorObject ''staging failed''), w) else (None, w)),
       commit = (\<lambda>m w. (None, (fst w, snd w @ [m]))),
       log = (\<lambda>n w. Inr (map (\<lambda>m. \<lparr> hash = m \<rparr>) (take n (rev (snd w))))) \<rparr>"

definition demoVSCode :: "demoWorld VSCode" where
  "demoVSCode =
     \<lparr> activeTextEditor = None,
       executeCommand = (\<lambda>c w.
          if c = ''git.undoCommit'' \<and> snd w \<noteq> []
          then (None, (fst w, butlast (snd w)))
          else (Some (OtherValue ''rejected''), w)) \<rparr>"

definition demoService :: "demoWorld GitService" where
  "demoService =
     \<lparr> api = Some \<lparr> repositories = [demoRepo], getRepository = (\<lambda>u. None) \<rparr> \<rparr>"

text \<open>A service that was never initialised: no repository is bound.\<close>

definition unboundService :: "demoWorld GitService" where
  "unboundService = \<lparr> api = None \<rparr>"

definition cleanState :: RepositoryState where
  "cleanState = \<lparr> HEAD = None, workingTreeChanges = [], indexChanges = [] \<rparr>"

definition demoTasks :: "CommitTask list" where
  "demoTasks =
     [ \<lparr> CommitTask.filePath = ''/repo/a.txt'', CommitTask.message = ''add a'' \<rparr>,
       \<lparr> CommitTask.filePath = ''/repo/b.txt'', CommitTask.message = ''add b'' \<rparr>,
       \<lparr> CommitTask.filePath = ''/repo/c.txt'', CommitTask.message = ''add c'' \<rparr> ]"

text \<open>
  A repository that also rejects a commit: the staging of \<open>b.txt\<close> is rejected with an
  \<open>Error\<close>, and a commit hook declines the message \<open>wip\<close> by throwing a string.
\<close>

definition hookRepo :: "demoWorld Repository" where
  "hookRepo =
     \<lparr> rootUri = \<lparr> fsPath = ''/repo'', toString = ''file:///repo'' \<rparr>,
       state = fst,
       add = (\<lambda>paths w.
                if paths = [''/repo/b.txt'']
                then (Some (ErrorObject ''staging failed''), w) else (None, w)),
       commit = (\<lambda>m w.
                if m = ''wip''
                then (Some (OtherValue ''hook declined''), w)
                else (None, (fst w, snd w @ [m]))),
       log = (\<lambda>n w. Inr (map (\<lambda>m. \<lparr> hash = m \<rparr>) (take n (rev (snd w))))) \<rparr>"

definition hookTasks :: "CommitTask list" where
  "hookTasks =
     [ \<lparr> CommitTask.filePath = ''/repo/a.txt'', CommitTask.message = ''add a'' \<rparr>,
       \<lparr> CommitTask.filePath = ''/repo/b.txt'', CommitTask.message = ''add b'' \<rparr>,
       \<lparr> CommitTask.filePath = ''/repo/c.txt'', CommitTask.message = ''wip'' \<rparr>,
       \<lparr> CommitTask.filePath = ''/repo/d.txt'', CommitTask.message = ''add d'' \<rparr> ]"

text \<open>A change of the file at the given path with the given raw status.\<close>

definition mkChange :: "string \<Rightarrow> Status \<Rightarrow> Change" where
  "mkChange p s =
     \<lparr> Change.uri = \<lparr> fsPath = p, toString = ''file://'' @ p \<rparr>, Change.status = s \<rparr>"

text \<open>
  The change that decides how a path is classified: its first working-tree change when
  it has one, its first index change otherwise.
\<close>

definition decidingChange :: "Change list \<Rightarrow> Change list \<Rightarrow> string \<Rightarrow> Change option" where
  "decidingChange ws ixs p =
     (case find (\<lambda>c. changePath c = p) ws of
        Some c \<Rightarrow> Some c
      | None \<Rightarrow> find (\<lambda>c. changePath c = p) ixs)"

text \<open>The add/add, delete/delete and modify/modify codes of a merge.\<close>

definition bothTouched :: "Status \<Rightarrow> bool" where
  "bothTouched s = (s = BOTH_ADDED \<or> s = BOTH_DELETED \<or> s = BOTH_MODIFIED)"

text \<open>\<open>a.txt\<close> has staged and unstaged edits, \<open>b.txt\<close> is untracked, \<open>c.txt\<close> is staged.\<close>

definition stagedBothState :: RepositoryState where
  "stagedBothState =
     \<lparr> HEAD = None,
       workingTreeChanges =
         [mkChange ''/repo/a.txt'' MODIFIED, mkChange ''/repo/b.txt'' UNTRACKED],
       indexChanges =
         [mkChange ''/repo/a.txt'' INDEX_ADDED, mkChange ''/repo/c.txt'' INDEX_DELETED] \<rparr>"

text \<open>The working-tree list names \<open>a.txt\<close> twice.\<close>

definition duplicateState :: RepositoryState where
  "duplicateState =
     \<lparr> HEAD = None,
       workingTreeChanges =
         [mkChange ''/repo/a.txt'' MODIFIED, mkChange ''/repo/a.txt'' DELETED],
       indexChanges = [mkChange ''/repo/a.txt'' INDEX_MODIFIED] \<rparr>"

text \<open>
  \<open>a.txt\<close> is modified in the working tree and carries a modify/modify conflict code in
  the index list; \<open>d.txt\<close> carries an add/add conflict code there.
\<close>

definition conflictState :: RepositoryState where
  "conflictState =
     \<lparr> HEAD = None,
       workingTreeChanges = [mkChange ''/repo/a.txt'' MODIFIED],
       indexChanges =
         [mkChange ''/repo/a.txt'' BOTH_MODIFIED, mkChange ''/repo/d.txt'' BOTH_ADDED] \<rparr>"

text \<open>A branch that was never pushed: it has no upstream and no counts.\<close>

definition localOnlyBranch :: Branch where
  "localOnlyBranch =
     \<lparr> name = Some ''feature'', upstream = None, ahead = None, behind = None \<rparr>"

definition localOnlyState :: RepositoryState where
  "localOnlyState =
     \<lparr> HEAD = Some localOnlyBranch, workingTreeChanges = [], indexChanges = [] \<rparr>"

definition twoAheadState :: RepositoryState where
  "twoAheadState =
     \<lparr> HEAD = Some \<lparr> name = Some ''main'', upstream = Some ''origin/main'',
                     ahead = Some 2, behind = Some 0 \<rparr>,
       workingTreeChanges = [], indexChanges = [] \<rparr>"


section \<open>Bulk commit: properties\<close>

lemma demo_bound: "repoOrActive demoVSCode demoService None = Some demoRepo"
  by (simp add: repoOrActive_def getActiveRepository_def demoService_def demoVSCode_def)

lemma demo_unbound: "repoOrActive demoVSCode unboundService None = None"
  by (simp add: repoOrActive_def getActiveRepository_def unboundService_def)

lemma outcomes_tasks: "map fst (outcomes repository tasks w) = tasks"
  by (induction tasks arbitrary: w) (auto split: prod.splits)

lemma commitLoop_successful:
  "successful (fst (commitLoop repository tasks result w calls)) =
     successful result @ successfulOf (outcomes repository tasks w)"
  by (induction tasks arbitrary: result w calls) (auto split: prod.splits option.splits)

lemma commitLoop_failed:
  "failed (fst (commitLoop repository tasks result w calls)) =
     failed result @ failedOf (outcomes repository tasks w)"
  by (induction tasks arbitrary: result w calls) (auto split: prod.splits option.splits)

lemma commitLoop_totalCommits:
  "totalCommits (fst (commitLoop repository tasks result w calls)) = totalCommits result"
  by (induction tasks arbitrary: result w calls) (auto split: prod.splits option.splits)

lemma length_partition:
  "length (successfulOf outs) + length (failedOf outs) = length outs"
  by (induction outs rule: successfulOf.induct) auto

lemma mset_partition:
  "mset (map taskOf (successfulOf outs)) + mset (map taskOf (failedOf outs)) =
     mset (map fst outs)"
  by (induction outs rule: successfulOf.induct)
     (auto simp: taskOf_def succeeded_def failedWith_def)

lemma errorMessage_text: "errorMessage e = (case e of ErrorObject m \<Rightarrow> m | OtherValue s \<Rightarrow> s)"
  by (cases e) simp_all

lemma batchRun_tasks: "map fst (fst (batchRun repository tasks w)) = tasks"
  by (induction tasks arbitrary: w) (auto split: prod.splits option.splits)

lemma commitLoop_batchRun:
  "commitLoop repository tasks result w calls =
     (result\<lparr> successful := successful result @ committedResults (fst (batchRun repository tasks w)),
              failed := failed result @ failedResults (fst (batchRun repository tasks w)) \<rparr>,
      snd (batchRun repository tasks w),
      calls @ concat (map attemptCalls (fst (batchRun repository tasks w))))"
proof (induction tasks arbitrary: result w calls)
  case Nil
  show ?case by simp
next
  case (Cons task rest)
  show ?case
    by (simp add: Cons.IH stageAndCommit_def succeeded_def failedWith_def errorMessage_text
          split: prod.splits option.splits)
qed

lemma failedResults_shape:
  "c \<in> set (failedResults attempts) \<Longrightarrow>
     \<not> CommitResult.success c \<and> CommitResult.error c \<noteq> None"
  by (induction attempts rule: failedResults.induct) auto

lemma attemptCalls_adds:
  "filter isAdd (concat (map attemptCalls attempts)) =
     map (\<lambda>t. CallAdd [CommitTask.filePath t]) (map fst attempts)"
  by (induction attempts rule: failedResults.induct) auto

lemma hook_bound: "repoOrActive demoVSCode demoService (Some hookRepo) = Some hookRepo"
  by (simp add: repoOrActive_def)

lemma hook_run:
  "batchRun hookRepo hookTasks (cleanState, []) =
     ([ (hookTasks ! 0, Committed),
        (hookTasks ! 1, StagingFailed (ErrorObject ''staging failed'')),
        (hookTasks ! 2, CommitFailed (OtherValue ''hook declined'')),
        (hookTasks ! 3, Committed) ],
      (cleanState, [''add a'', ''add d'']))"
  by (simp add: hookTasks_def hookRepo_def)

text \<open>
  C1. With a repository bound, \<open>bulkCommit\<close> resolves with a result whatever the backend
  does: no thrown value escapes. Every task of the input is attempted, in input order and
  from the backend state the tasks before it left, whatever their attempts gave. A task
  whose staging and commit both resolved has its entry in \<open>successful\<close>; a task whose
  staging or whose commit was rejected has its entry in \<open>failed\<close>, with \<open>success = false\<close>
  and the message of the thrown value as \<open>error\<close>. The backend calls made are exactly
  those of the attempts: one staging per task, in input order, each followed by the
  task's commit unless the staging was rejected.
\<close>

theorem bulkCommit_never_aborts:
  assumes "repoOrActive vs this repo = Some repository"
  shows "\<exists>result w' calls.
           bulkCommit vs this tasks repo w = (Inr result, w', calls)
         \<and> map fst (fst (batchRun repository tasks w)) = tasks
         \<and> successful result = committedResults (fst (batchRun repository tasks w))
         \<and> failed result = failedResults (fst (batchRun repository tasks w))
         \<and> w' = snd (batchRun repository tasks w)
         \<and> calls = concat (map attemptCalls (fst (batchRun repository tasks w)))
         \<and> (\<forall>c \<in> set (failed result).
               \<not> CommitResult.success c \<and> CommitResult.error c \<noteq> None)
         \<and> filter isAdd calls = map (\<lambda>t. CallAdd [CommitTask.filePath t]) tasks"
proof -
  let ?run = "batchRun repository tasks w"
  let ?result = "\<lparr> successful = committedResults (fst ?run),
                    failed = failedResults (fst ?run),
                    totalCommits = length tasks \<rparr>"
  let ?calls = "concat (map attemptCalls (fst ?run))"
  have b: "bulkCommit vs this tasks repo w = (Inr ?result, snd ?run, ?calls)"
    by (simp add: bulkCommit_def assms commitLoop_batchRun)
  have t: "map fst (fst ?run) = tasks"
    by (rule batchRun_tasks)
  have sh: "\<forall>c \<in> set (failed ?result).
              \<not> CommitResult.success c \<and> CommitResult.error c \<noteq> None"
    using failedResults_shape by simp
  have a: "filter isAdd ?calls = map (\<lambda>t. CallAdd [CommitTask.filePath t]) tasks"
    by (simp only: attemptCalls_adds t)
  have s: "successful ?result = committedResults (fst ?run)"
    and f: "failed ?result = failedResults (fst ?run)" by simp_all
  from b t s f sh a show ?thesis
    by (intro exI [of _ ?result] exI [of _ "snd ?run"] exI [of _ ?calls] conjI) simp_all
qed

text \<open>
  Four tasks where the staging of the second and the commit of the third are rejected:
  the first and the fourth are committed, the other two are reported with their errors.
\<close>

theorem bulkCommit_never_aborts_witness:
  "repoOrActive demoVSCode demoService (Some hookRepo) = Some hookRepo
   \<and> bulkCommit demoVSCode demoService hookTasks (Some hookRepo) (cleanState, []) =
       (Inr \<lparr> successful =
                [ \<lparr> CommitResult.success = True, filePath = ''/repo/a.txt'',
                    message = Some ''add a'', error = None \<rparr>,
                  \<lparr> CommitResult.success = True, filePath = ''/repo/d.txt'',
                    message = Some ''add d'', error = None \<rparr> ],
              failed =
                [ \<lparr> CommitResult.success = False, filePath = ''/repo/b.txt'',
                    message = Some ''add b'', error = Some ''staging failed'' \<rparr>,
                  \<lparr> CommitResult.success = False, filePath = ''/repo/c.txt'',
                    message = Some ''wip'', error = Some ''hook declined'' \<rparr> ],
              totalCommits = 4 \<rparr>,
        (cleanState, [''add a'', ''add d'']),
        [ CallAdd [''/repo/a.txt''], CallCommit ''add a'',
          CallAdd [''/repo/b.txt''],
          CallAdd [''/repo/c.txt''], CallCommit ''wip'',
          CallAdd [''/repo/d.txt''], CallCommit ''add d'' ])"
proof -
  from bulkCommit_never_aborts [OF hook_bound, of hookTasks "(cleanState, [])"]
  obtain result w' calls where
    r: "bulkCommit demoVSCode demoService hookTasks (Some hookRepo) (cleanState, []) =
          (Inr result, w', calls)"
    and s: "successful result = committedResults (fst (batchRun hookRepo hookTasks (cleanState, [])))"
    and f: "failed result = failedResults (fst (batchRun hookRepo hookTasks (cleanState, [])))"
    and w: "w' = snd (batchRun hookRepo hookTasks (cleanState, []))"
    and c: "calls = concat (map attemptCalls (fst (batchRun hookRepo hookTasks (cleanState, []))))"
    by blast
  have t: "totalCommits result = 4"
    using r by (auto simp: bulkCommit_def hook_bound commitLoop_batchRun hookTasks_def)
  have "result = \<lparr> successful = successful result, failed = failed result,
                   totalCommits = totalCommits result \<rparr>" by simp
  then show ?thesis
    unfolding r s f w c t hook_run using hook_bound
    by (simp add: hookTasks_def)
qed

text \<open>
  C2. With a repository bound, the result of \<open>bulkCommit\<close> has as many entries in
  \<open>successful\<close> and \<open>failed\<close> together as there are tasks, \<open>totalCommits\<close> is the number of
  tasks, and the two lists together hold every task exactly as often as the input does.
\<close>

theorem bulkCommit_counts:
  assumes "repoOrActive vs this repo = Some repository"
  shows "\<exists>result w' calls.
           bulkCommit vs this tasks repo w = (Inr result, w', calls)
         \<and> length (successful result) + length (failed result) = length tasks
         \<and> totalCommits result = length tasks
         \<and> mset (map taskOf (successful result)) + mset (map taskOf (failed result)) =
             mset tasks"
proof -
  let ?init = "\<lparr> successful = [], failed = [], totalCommits = length tasks \<rparr>"
  let ?outs = "outcomes repository tasks w"
  obtain result w' calls where
    run: "commitLoop repository tasks ?init w [] = (result, w', calls)"
    by (cases "commitLoop repository tasks ?init w []") auto
  have b: "bulkCommit vs this tasks repo w = (Inr result, w', calls)"
    by (simp add: bulkCommit_def assms run)
  have s: "successful result = successfulOf ?outs"
    using commitLoop_successful [of repository tasks ?init w "[]"] by (simp add: run)
  have f: "failed result = failedOf ?outs"
    using commitLoop_failed [of repository tasks ?init w "[]"] by (simp add: run)
  have t: "totalCommits result = length tasks"
    using commitLoop_totalCommits [of repository tasks ?init w "[]"] by (simp add: run)
  have len: "length ?outs = length tasks"
    using outcomes_tasks [of repository tasks w] by (metis length_map)
  have l: "length (successful result) + length (failed result) = length tasks"
    using length_partition [of ?outs] by (simp add: s f len)
  have m: "mset (map taskOf (successful result)) + mset (map taskOf (failed result)) =
             mset tasks"
    using mset_partition [of ?outs] by (simp add: s f outcomes_tasks)
  from b l t m show ?thesis
    by (intro exI [of _ result] exI [of _ w'] exI [of _ calls] conjI)
qed

theorem bulkCommit_counts_witness:
  "repoOrActive demoVSCode demoService None = Some demoRepo
   \<and> (\<exists>result w' calls.
         bulkCommit demoVSCode demoService demoTasks None (cleanState, []) =
           (Inr result, w', calls)
       \<and> length (successful result) + length (failed result) = 3
       \<and> totalCommits result = 3)"
proof -
  from bulkCommit_counts [OF demo_bound, of demoTasks "(cleanState, [])"]
  obtain result w' calls where
    r: "bulkCommit demoVSCode demoService demoTasks None (cleanState, []) =
          (Inr result, w', calls)"
    and l: "length (successful result) + length (failed result) = length demoTasks"
    and t: "totalCommits result = length demoTasks"
    by blast
  have n: "length demoTasks = 3" by (simp add: demoTasks_def)
  from demo_bound r l t show ?thesis unfolding n by blast
qed

text \<open>
  C3. With no repository bound, \<open>bulkCommit\<close> rejects with the error
  \<open>No repository found\<close>: there is no result, no backend call is made and the backend
  state is untouched.
\<close>

theorem bulkCommit_no_repository:
  assumes "repoOrActive vs this repo = None"
  shows "bulkCommit vs this tasks repo w = (Inl (ErrorObject ''No repository found''), w, [])"
  by (simp add: bulkCommit_def assms)

theorem bulkCommit_no_repository_witness:
  "repoOrActive demoVSCode unboundService None = None
   \<and> bulkCommit demoVSCode unboundService demoTasks None (cleanState, []) =
       (Inl (ErrorObject ''No repository found''), (cleanState, []), [])"
  using bulkCommit_no_repository [OF demo_unbound, of demoTasks "(cleanState, [])"] demo_unbound
  by simp

section \<open>Status reconciliation: properties\<close>

lemma findIndex_Some:
  "findIndex P xs = Some i \<Longrightarrow> i < length xs \<and> P (xs ! i) \<and> (\<forall>j<i. \<not> P (xs ! j))"
proof (induction xs arbitrary: i)
  case Nil
  then show ?case by simp
next
  case (Cons x xs)
  show ?case
  proof (cases "P x")
    case True
    with Cons.prems show ?thesis by simp
  next
    case False
    with Cons.prems obtain k where k: "findIndex P xs = Some k" "i = Suc k" by auto
    from Cons.IH [OF k(1)] False k(2) show ?thesis
      by (auto simp: nth_Cons split: nat.splits)
  qed
qed

lemma findIndex_None: "(findIndex P xs = None) = (\<forall>x \<in> set xs. \<not> P x)"
  by (induction xs) auto

lemma findIndex_first:
  "i < length xs \<Longrightarrow> P (xs ! i) \<Longrightarrow> (\<forall>j<i. \<not> P (xs ! j)) \<Longrightarrow> findIndex P xs = Some i"
proof (induction xs arbitrary: i)
  case Nil
  then show ?case by simp
next
  case (Cons x xs)
  show ?case
  proof (cases i)
    case 0
    with Cons.prems show ?thesis by simp
  next
    case (Suc k)
    with Cons.prems have "\<not> P x" by auto
    moreover have "findIndex P xs = Some k"
      using Cons.prems Suc by (intro Cons.IH) auto
    ultimately show ?thesis using Suc by simp
  qed
qed

lemma find_findIndex:
  "find P xs = (case findIndex P xs of None \<Rightarrow> None | Some i \<Rightarrow> Some (xs ! i))"
  by (induction xs) (auto split: option.splits)

lemma pushWorkingTree_eq:
  "pushWorkingTree rootPath ws changes = changes @ map (toFileChange rootPath False) ws"
  by (induction ws arbitrary: changes) auto

lemma path_toFileChange [simp]: "path (toFileChange rootPath st change) = changePath change"
  by (simp add: toFileChange_def changePath_def)

lemma map_path_mark:
  "i < length changes \<Longrightarrow>
   map path (changes[i := (changes ! i)\<lparr>staged := True\<rparr>]) = map path changes"
  by (simp add: map_update list_update_same_conv)

lemma mergeIndex_paths:
  "path ` set (mergeIndex rootPath ixs changes) =
     path ` set changes \<union> changePath ` set ixs"
proof (induction ixs arbitrary: changes)
  case Nil
  show ?case by simp
next
  case (Cons change rest)
  show ?case
  proof (cases "findIndex (\<lambda>c. path c = fsPath (Change.uri change)) changes")
    case None
    then show ?thesis by (simp add: Cons.IH changePath_def)
  next
    case (Some i)
    from findIndex_Some [OF Some]
    have i: "i < length changes" and p: "path (changes ! i) = changePath change"
      by (auto simp: changePath_def)
    have "changePath change \<in> path ` set changes"
      using i p by (metis image_eqI nth_mem)
    moreover have "path ` set (changes[i := (changes ! i)\<lparr>staged := True\<rparr>]) = path ` set changes"
      using map_path_mark [OF i] by (metis set_map)
    ultimately show ?thesis
      using Some by (auto simp: Cons.IH)
  qed
qed

lemma mergeIndex_distinct:
  "distinct (map path changes) \<Longrightarrow> distinct (map path (mergeIndex rootPath ixs changes))"
proof (induction ixs arbitrary: changes)
  case Nil
  then show ?case by simp
next
  case (Cons change rest)
  show ?case
  proof (cases "findIndex (\<lambda>c. path c = fsPath (Change.uri change)) changes")
    case None
    then have "changePath change \<notin> set (map path changes)"
      by (auto simp: findIndex_None changePath_def)
    with Cons.prems have "distinct (map path (changes @ [toFileChange rootPath True change]))"
      by simp
    from Cons.IH [OF this] None show ?thesis by simp
  next
    case (Some i)
    from findIndex_Some [OF Some] have i: "i < length changes" by simp
    with Cons.prems
    have "distinct (map path (changes[i := (changes ! i)\<lparr>staged := True\<rparr>]))"
      by (simp only: map_path_mark)
    from Cons.IH [OF this] Some show ?thesis by simp
  qed
qed

text \<open>An entry already in the list keeps its place; it is marked staged when the index names its path.\<close>

lemma mergeIndex_existing:
  assumes "findIndex (\<lambda>c. path c = p) changes = Some i"
  shows "findIndex (\<lambda>c. path c = p) (mergeIndex rootPath ixs changes) = Some i \<and>
         mergeIndex rootPath ixs changes ! i =
           (if p \<in> changePath ` set ixs then (changes ! i)\<lparr>staged := True\<rparr> else changes ! i)"
  using assms
proof (induction ixs arbitrary: changes)
  case Nil
  then show ?case by simp
next
  case (Cons change rest)
  let ?q = "fsPath (Change.uri change)"
  from findIndex_Some [OF Cons.prems]
  have i: "i < length changes" and pi: "path (changes ! i) = p"
    and first: "\<forall>j<i. path (changes ! j) \<noteq> p" by auto
  show ?case
  proof (cases "findIndex (\<lambda>c. path c = ?q) changes")
    case None
    let ?cs = "changes @ [toFileChange rootPath True change]"
    have "?q \<noteq> p" using None i pi by (auto simp: findIndex_None)
    moreover have "findIndex (\<lambda>c. path c = p) ?cs = Some i"
      using i pi first by (intro findIndex_first) (auto simp: nth_append)
    from Cons.IH [OF this] have
      "findIndex (\<lambda>c. path c = p) (mergeIndex rootPath rest ?cs) = Some i \<and>
       mergeIndex rootPath rest ?cs ! i =
         (if p \<in> changePath ` set rest then (?cs ! i)\<lparr>staged := True\<rparr> else ?cs ! i)" .
    ultimately show ?thesis
      using None i by (auto simp: nth_append changePath_def)
  next
    case (Some j)
    let ?cs = "changes[j := (changes ! j)\<lparr>staged := True\<rparr>]"
    from findIndex_Some [OF Some]
    have j: "j < length changes" and pj: "path (changes ! j) = ?q"
      and firstj: "\<forall>k<j. path (changes ! k) \<noteq> ?q" by auto
    have paths: "\<And>k. k < length changes \<Longrightarrow> path (?cs ! k) = path (changes ! k)"
      using j by (simp add: nth_list_update)
    have fi: "findIndex (\<lambda>c. path c = p) ?cs = Some i"
      using i pi first by (intro findIndex_first) (auto simp: paths)
    note ih = Cons.IH [OF fi]
    show ?thesis
    proof (cases "?q = p")
      case True
      have "j = i"
      proof (rule ccontr)
        assume "j \<noteq> i"
        then consider "j < i" | "i < j" by linarith
        then show False
          using first firstj pi pj True by cases auto
      qed
      with ih Some i True show ?thesis
        by (auto simp: changePath_def)
    next
      case False
      then have "j \<noteq> i" using pi pj by auto
      with ih Some i False show ?thesis
        by (auto simp: changePath_def)
    qed
  qed
qed

text \<open>A path the list does not hold yet enters with the index's first change for it.\<close>

lemma mergeIndex_new:
  assumes "p \<notin> path ` set changes"
    and "find (\<lambda>c. changePath c = p) ixs = Some ic"
  shows "\<exists>i. findIndex (\<lambda>c. path c = p) (mergeIndex rootPath ixs changes) = Some i \<and>
             mergeIndex rootPath ixs changes ! i = toFileChange rootPath True ic"
  using assms
proof (induction ixs arbitrary: changes)
  case Nil
  then show ?case by simp
next
  case (Cons change rest)
  let ?q = "fsPath (Change.uri change)"
  show ?case
  proof (cases "?q = p")
    case True
    with Cons.prems have ic: "ic = change" by (simp add: changePath_def)
    have none: "findIndex (\<lambda>c. path c = ?q) changes = None"
      using Cons.prems(1) True by (force simp: findIndex_None)
    let ?cs = "changes @ [toFileChange rootPath True change]"
    have np: "\<forall>j<length changes. path (changes ! j) \<noteq> p"
      using Cons.prems(1) by (metis image_eqI nth_mem)
    have fi: "findIndex (\<lambda>c. path c = p) ?cs = Some (length changes)"
      using np True
      by (intro findIndex_first) (auto simp: nth_append changePath_def)
    have st: "staged (toFileChange rootPath True change)" by (simp add: toFileChange_def)
    from mergeIndex_existing [OF fi, of rootPath rest] st
    have "findIndex (\<lambda>c. path c = p) (mergeIndex rootPath rest ?cs) = Some (length changes) \<and>
          mergeIndex rootPath rest ?cs ! length changes = toFileChange rootPath True change"
      by (auto simp: toFileChange_def)
    then show ?thesis using none ic by auto
  next
    case False
    with Cons.prems have f: "find (\<lambda>c. changePath c = p) rest = Some ic"
      by (simp add: changePath_def)
    show ?thesis
    proof (cases "findIndex (\<lambda>c. path c = ?q) changes")
      case None
      have "p \<notin> path ` set (changes @ [toFileChange rootPath True change])"
        using Cons.prems(1) False by (auto simp: changePath_def)
      from Cons.IH [OF this f] None show ?thesis by simp
    next
      case (Some j)
      from findIndex_Some [OF Some] have j: "j < length changes" by simp
      have "p \<notin> path ` set (changes[j := (changes ! j)\<lparr>staged := True\<rparr>])"
        using Cons.prems(1) map_path_mark [OF j] by (metis set_map)
      from Cons.IH [OF this f] Some show ?thesis by simp
    qed
  qed
qed


lemma findIndex_toFileChange:
  "findIndex (\<lambda>c. path c = p) (map (toFileChange rootPath st) ws) =
     findIndex (\<lambda>c. changePath c = p) ws"
  by (induction ws) auto

lemma getChangedFiles_bound:
  assumes "repoOrActive vs this repo = Some repository"
  shows "getChangedFiles vs this repo w =
           mergeIndex (fsPath (rootUri repository)) (indexChanges (state repository w))
             (map (toFileChange (fsPath (rootUri repository)) False)
                (workingTreeChanges (state repository w)))"
  by (simp add: getChangedFiles_def assms pushWorkingTree_eq Let_def)

lemma mark_toFileChange:
  "(toFileChange rootPath st change)\<lparr>staged := True\<rparr> = toFileChange rootPath True change"
  by (simp add: toFileChange_def)

text \<open>The first output entry of a path is made from its deciding change.\<close>

lemma getChangedFiles_entry:
  assumes bound: "repoOrActive vs this repo = Some repository"
    and dc: "decidingChange (workingTreeChanges (state repository w))
               (indexChanges (state repository w)) p = Some dc"
  shows "find (\<lambda>c. path c = p) (getChangedFiles vs this repo w) =
           Some (toFileChange (fsPath (rootUri repository))
                   (p \<in> changePath ` set (indexChanges (state repository w))) dc)"
proof -
  let ?root = "fsPath (rootUri repository)"
  let ?ws = "workingTreeChanges (state repository w)"
  let ?ixs = "indexChanges (state repository w)"
  let ?seed = "map (toFileChange ?root False) ?ws"
  let ?out = "mergeIndex ?root ?ixs ?seed"
  have out: "getChangedFiles vs this repo w = ?out"
    by (rule getChangedFiles_bound [OF bound])
  show ?thesis
  proof (cases "find (\<lambda>c. changePath c = p) ?ws")
    case (Some wc)
    with dc have wc: "wc = dc" by (simp add: decidingChange_def)
    from Some obtain i where i: "findIndex (\<lambda>c. changePath c = p) ?ws = Some i"
      and wi: "?ws ! i = wc"
      by (auto simp: find_findIndex split: option.splits)
    from findIndex_Some [OF i] have il: "i < length ?ws" by simp
    have fi: "findIndex (\<lambda>c. path c = p) ?seed = Some i"
      by (simp add: findIndex_toFileChange i)
    have si: "?seed ! i = toFileChange ?root False dc"
      using il wi wc by simp
    from mergeIndex_existing [OF fi, of ?root ?ixs]
    have "findIndex (\<lambda>c. path c = p) ?out = Some i"
      and "?out ! i = toFileChange ?root (p \<in> changePath ` set ?ixs) dc"
      by (auto simp: si mark_toFileChange)
    then show ?thesis
      by (simp add: out find_findIndex)
  next
    case None
    with dc have f: "find (\<lambda>c. changePath c = p) ?ixs = Some dc"
      by (simp add: decidingChange_def)
    then have pin: "p \<in> changePath ` set ?ixs"
      by (metis (mono_tags, lifting) find_Some_iff image_eqI nth_mem)
    from None have "findIndex (\<lambda>c. path c = p) ?seed = None"
      by (simp add: findIndex_toFileChange find_findIndex split: option.splits)
    then have "p \<notin> path ` set ?seed"
      by (auto simp: findIndex_None)
    from mergeIndex_new [OF this f, of ?root]
    obtain i where "findIndex (\<lambda>c. path c = p) ?out = Some i"
      and "?out ! i = toFileChange ?root True dc" by blast
    then show ?thesis
      by (simp add: out find_findIndex pin)
  qed
qed

lemma distinct_filter_single:
  "distinct (map f xs) \<Longrightarrow> find (\<lambda>y. f y = k) xs = Some x \<Longrightarrow> filter (\<lambda>y. f y = k) xs = [x]"
proof (induction xs)
  case Nil
  then show ?case by simp
next
  case (Cons a xs)
  show ?case
  proof (cases "f a = k")
    case True
    with Cons.prems have xa: "x = a" by simp
    from Cons.prems(1) True have "k \<notin> f ` set xs" by simp
    then have "\<forall>y \<in> set xs. f y \<noteq> k" by blast
    then show ?thesis using True xa by (simp add: filter_empty_conv)
  next
    case False
    with Cons show ?thesis by simp
  qed
qed

lemma getChangedFiles_distinct:
  assumes bound: "repoOrActive vs this repo = Some repository"
    and d: "distinct (map changePath (workingTreeChanges (state repository w)))"
  shows "distinct (map path (getChangedFiles vs this repo w))"
proof -
  let ?root = "fsPath (rootUri repository)"
  have "map path (map (toFileChange ?root False) (workingTreeChanges (state repository w))) =
          map changePath (workingTreeChanges (state repository w))"
    by simp
  with d have "distinct (map path (map (toFileChange ?root False)
                 (workingTreeChanges (state repository w))))"
    by (simp only:)
  from mergeIndex_distinct [OF this] show ?thesis
    by (simp only: getChangedFiles_bound [OF bound])
qed

lemma getChangedFiles_paths:
  assumes bound: "repoOrActive vs this repo = Some repository"
  shows "path ` set (getChangedFiles vs this repo w) =
           changePath ` set (workingTreeChanges (state repository w)) \<union>
           changePath ` set (indexChanges (state repository w))"
  by (simp add: getChangedFiles_bound [OF bound] mergeIndex_paths image_image)

lemmas demo_eval = demoRepo_def mkChange_def toFileChange_def getRelativePath_def
  startsWith_def slashes_def

lemma demo_state: "state demoRepo (s, h) = s"
  by (simp add: demoRepo_def)

text \<open>
  C4, as stated, fails: the first loop pushes every working-tree change, so a path that
  the working-tree list names twice is in the output twice.
\<close>

theorem getChangedFiles_duplicate_counterexample:
  "map path (getChangedFiles demoVSCode demoService None (duplicateState, [])) =
     [''/repo/a.txt'', ''/repo/a.txt'']
   \<and> \<not> distinct (map path (getChangedFiles demoVSCode demoService None (duplicateState, [])))"
  by (simp add: getChangedFiles_bound [OF demo_bound] duplicateState_def demo_eval)

text \<open>
  C4, amended. When the working-tree list names no path twice, every path of the two
  lists is in the output exactly once: the output paths are pairwise distinct and are
  the paths of the two lists. The index list may name a path any number of times.
\<close>

theorem getChangedFiles_one_entry_per_path:
  assumes "repoOrActive vs this repo = Some repository"
    and "distinct (map changePath (workingTreeChanges (state repository w)))"
  shows "distinct (map path (getChangedFiles vs this repo w))
       \<and> path ` set (getChangedFiles vs this repo w) =
           changePath ` set (workingTreeChanges (state repository w)) \<union>
           changePath ` set (indexChanges (state repository w))"
  using getChangedFiles_distinct [OF assms] getChangedFiles_paths [OF assms(1)] by simp

theorem getChangedFiles_one_entry_per_path_witness:
  "repoOrActive demoVSCode demoService None = Some demoRepo
   \<and> distinct (map changePath (workingTreeChanges (state demoRepo (stagedBothState, []))))
   \<and> distinct (map path (getChangedFiles demoVSCode demoService None (stagedBothState, [])))
   \<and> path ` set (getChangedFiles demoVSCode demoService None (stagedBothState, [])) =
       {''/repo/a.txt'', ''/repo/b.txt'', ''/repo/c.txt''}"
proof -
  have d: "distinct (map changePath (workingTreeChanges (state demoRepo (stagedBothState, []))))"
    by (simp add: demo_state stagedBothState_def mkChange_def changePath_def)
  have s: "changePath ` set (workingTreeChanges (state demoRepo (stagedBothState, []))) \<union>
           changePath ` set (indexChanges (state demoRepo (stagedBothState, []))) =
             {''/repo/a.txt'', ''/repo/b.txt'', ''/repo/c.txt''}"
    by (auto simp: demo_state stagedBothState_def mkChange_def changePath_def)
  from getChangedFiles_one_entry_per_path [OF demo_bound d] demo_bound d show ?thesis
    unfolding s by simp
qed

text \<open>
  C5, as stated, fails: \<open>findIndex\<close> marks the first entry of the path only, so with a
  path that the working-tree list names twice and the index list names too, the second
  output entry of that path is not staged.
\<close>

theorem staged_both_counterexample:
  "''/repo/a.txt'' \<in> changePath ` set (workingTreeChanges duplicateState)
   \<and> ''/repo/a.txt'' \<in> changePath ` set (indexChanges duplicateState)
   \<and> length (getChangedFiles demoVSCode demoService None (duplicateState, [])) = 2
   \<and> path (getChangedFiles demoVSCode demoService None (duplicateState, []) ! 1) = ''/repo/a.txt''
   \<and> \<not> staged (getChangedFiles demoVSCode demoService None (duplicateState, []) ! 1)"
  by (simp add: getChangedFiles_bound [OF demo_bound] duplicateState_def demo_eval changePath_def)

text \<open>
  C5, amended. For a path in both lists, the first output entry of that path is staged
  and has the classification of the path's first working-tree change; when the
  working-tree list names no path twice, it is the only output entry of that path.
\<close>

theorem staged_both_first_entry:
  assumes bound: "repoOrActive vs this repo = Some repository"
    and wc: "find (\<lambda>c. changePath c = p) (workingTreeChanges (state repository w)) = Some wc"
    and ix: "p \<in> changePath ` set (indexChanges (state repository w))"
  shows "\<exists>e. find (\<lambda>c. path c = p) (getChangedFiles vs this repo w) = Some e
           \<and> staged e
           \<and> FileChange.status e = convertStatus (Change.status wc)
           \<and> (distinct (map changePath (workingTreeChanges (state repository w)))
                \<longrightarrow> filter (\<lambda>c. path c = p) (getChangedFiles vs this repo w) = [e])"
proof -
  let ?e = "toFileChange (fsPath (rootUri repository)) True wc"
  have "decidingChange (workingTreeChanges (state repository w))
          (indexChanges (state repository w)) p = Some wc"
    by (simp add: decidingChange_def wc)
  from getChangedFiles_entry [OF bound this] ix
  have f: "find (\<lambda>c. path c = p) (getChangedFiles vs this repo w) = Some ?e"
    by simp
  have u: "distinct (map changePath (workingTreeChanges (state repository w)))
             \<longrightarrow> filter (\<lambda>c. path c = p) (getChangedFiles vs this repo w) = [?e]"
    using distinct_filter_single [OF getChangedFiles_distinct [OF bound] f] by blast
  have "staged ?e" and "FileChange.status ?e = convertStatus (Change.status wc)"
    by (simp_all add: toFileChange_def)
  with f u show ?thesis by blast
qed

theorem staged_both_first_entry_witness:
  "repoOrActive demoVSCode demoService None = Some demoRepo
   \<and> find (\<lambda>c. changePath c = ''/repo/a.txt'')
        (workingTreeChanges (state demoRepo (stagedBothState, []))) =
        Some (mkChange ''/repo/a.txt'' MODIFIED)
   \<and> ''/repo/a.txt'' \<in> changePath ` set (indexChanges (state demoRepo (stagedBothState, [])))
   \<and> (\<exists>e. filter (\<lambda>c. path c = ''/repo/a.txt'')
              (getChangedFiles demoVSCode demoService None (stagedBothState, [])) = [e]
          \<and> staged e \<and> FileChange.status e = modified)"
proof -
  have w: "find (\<lambda>c. changePath c = ''/repo/a.txt'')
             (workingTreeChanges (state demoRepo (stagedBothState, []))) =
             Some (mkChange ''/repo/a.txt'' MODIFIED)"
    by (simp add: demo_state stagedBothState_def mkChange_def changePath_def)
  have i: "''/repo/a.txt'' \<in> changePath ` set (indexChanges (state demoRepo (stagedBothState, [])))"
    by (simp add: demo_state stagedBothState_def mkChange_def changePath_def)
  have d: "distinct (map changePath (workingTreeChanges (state demoRepo (stagedBothState, []))))"
    by (simp add: demo_state stagedBothState_def mkChange_def changePath_def)
  have m: "convertStatus (Change.status (mkChange ''/repo/a.txt'' MODIFIED)) = modified"
    by (simp add: mkChange_def)
  from staged_both_first_entry [OF demo_bound w i] d m
  obtain e where "filter (\<lambda>c. path c = ''/repo/a.txt'')
              (getChangedFiles demoVSCode demoService None (stagedBothState, [])) = [e]"
    and "staged e" and "FileChange.status e = modified"
    by auto
  with demo_bound w i show ?thesis by blast
qed

text \<open>
  C6, as stated, fails: \<open>a.txt\<close> carries the modify/modify code in the index list, and is
  reported \<open>modified\<close>, the classification of its working-tree change.
\<close>

theorem conflicted_priority_counterexample:
  "changePath (indexChanges conflictState ! 0) = ''/repo/a.txt''
   \<and> Change.status (indexChanges conflictState ! 0) = BOTH_MODIFIED
   \<and> map path (getChangedFiles demoVSCode demoService None (conflictState, [])) =
       [''/repo/a.txt'', ''/repo/d.txt'']
   \<and> map FileChange.status (getChangedFiles demoVSCode demoService None (conflictState, [])) =
       [modified, conflicted]"
  by (simp add: getChangedFiles_bound [OF demo_bound] conflictState_def demo_eval changePath_def)

text \<open>
  C6, amended. \<open>convertStatus\<close> sends every add/add, delete/delete and modify/modify
  code to \<open>conflicted\<close>. In the output, the first entry of a path has the classification
  of the path's deciding change (its first working-tree change, or its first index change
  when it has no working-tree change); it is \<open>conflicted\<close> when that change carries such
  a code.
\<close>

theorem conflicted_classification:
  assumes bound: "repoOrActive vs this repo = Some repository"
    and dc: "decidingChange (workingTreeChanges (state repository w))
               (indexChanges (state repository w)) p = Some dc"
  shows "(\<forall>s. bothTouched s \<longrightarrow> convertStatus s = conflicted)
       \<and> (\<exists>e. find (\<lambda>c. path c = p) (getChangedFiles vs this repo w) = Some e
              \<and> FileChange.status e = convertStatus (Change.status dc)
              \<and> (bothTouched (Change.status dc) \<longrightarrow> FileChange.status e = conflicted))"
proof -
  have c: "\<forall>s. bothTouched s \<longrightarrow> convertStatus s = conflicted"
    by (auto simp: bothTouched_def)
  let ?e = "toFileChange (fsPath (rootUri repository))
              (p \<in> changePath ` set (indexChanges (state repository w))) dc"
  have f: "find (\<lambda>c. path c = p) (getChangedFiles vs this repo w) = Some ?e"
    by (rule getChangedFiles_entry [OF bound dc])
  have s: "FileChange.status ?e = convertStatus (Change.status dc)"
    by (simp add: toFileChange_def)
  with c have "bothTouched (Change.status dc) \<longrightarrow> FileChange.status ?e = conflicted"
    by simp
  with c f s show ?thesis by blast
qed

theorem conflicted_classification_witness:
  "repoOrActive demoVSCode demoService None = Some demoRepo
   \<and> decidingChange (workingTreeChanges (state demoRepo (conflictState, [])))
        (indexChanges (state demoRepo (conflictState, []))) ''/repo/d.txt'' =
        Some (mkChange ''/repo/d.txt'' BOTH_ADDED)
   \<and> bothTouched BOTH_ADDED
   \<and> convertStatus BOTH_ADDED = conflicted
   \<and> (\<exists>e. find (\<lambda>c. path c = ''/repo/d.txt'')
              (getChangedFiles demoVSCode demoService None (conflictState, [])) = Some e
          \<and> FileChange.status e = conflicted)"
proof -
  have d: "decidingChange (workingTreeChanges (state demoRepo (conflictState, [])))
             (indexChanges (state demoRepo (conflictState, []))) ''/repo/d.txt'' =
             Some (mkChange ''/repo/d.txt'' BOTH_ADDED)"
    by (simp add: demo_state conflictState_def decidingChange_def mkChange_def changePath_def)
  have b: "bothTouched BOTH_ADDED" by (simp add: bothTouched_def)
  have s: "Change.status (mkChange ''/repo/d.txt'' BOTH_ADDED) = BOTH_ADDED"
    by (simp add: mkChange_def)
  from conflicted_classification [OF demo_bound d] b s
  have "convertStatus BOTH_ADDED = conflicted"
    and "\<exists>e. find (\<lambda>c. path c = ''/repo/d.txt'')
              (getChangedFiles demoVSCode demoService None (conflictState, [])) = Some e
          \<and> FileChange.status e = conflicted"
    by auto
  with demo_bound d b show ?thesis by blast
qed

text \<open>
  C10. With no repository bound, \<open>getChangedFiles\<close> returns the empty list; it has no
  branch that throws.
\<close>

theorem getChangedFiles_no_repository:
  assumes "repoOrActive vs this repo = None"
  shows "getChangedFiles vs this repo w = []"
  by (simp add: getChangedFiles_def assms)

theorem getChangedFiles_no_repository_witness:
  "repoOrActive demoVSCode unboundService None = None
   \<and> getChangedFiles demoVSCode unboundService None (stagedBothState, []) = []"
  using getChangedFiles_no_repository [OF demo_unbound, of "(stagedBothState, [])"] demo_unbound
  by simp

section \<open>Sync status: properties\<close>

lemma orZero_eq: "orZero x = (case x of None \<Rightarrow> 0 | Some n \<Rightarrow> int n)"
  by (simp add: orZero_def split: option.splits)

text \<open>
  C7, as stated, fails: on a branch with no upstream the repository still has a \<open>HEAD\<close>,
  its counts are undefined, and \<open>getSyncStatus\<close> returns \<open>{ahead: 0, behind: 0}\<close>.
\<close>

theorem getSyncStatus_no_upstream_counterexample:
  "HEAD (state demoRepo (localOnlyState, [])) = Some localOnlyBranch
   \<and> upstream localOnlyBranch = None
   \<and> getSyncStatus demoVSCode demoService None (localOnlyState, []) =
       Some \<lparr> ahead = 0, behind = 0 \<rparr>"
  by (simp add: getSyncStatus_def demo_bound demo_state localOnlyState_def localOnlyBranch_def
        orZero_def)

text \<open>
  C7, amended. \<open>getSyncStatus\<close> returns nothing exactly when no repository is bound or the
  repository has no \<open>HEAD\<close>. With a \<open>HEAD\<close>, it returns the counts of \<open>HEAD\<close>, an undefined
  count read as \<open>0\<close>; the returned counts are never negative, and a branch two commits
  ahead and none behind gives \<open>{ahead: 2, behind: 0}\<close>.
\<close>

theorem getSyncStatus_absent_and_counts:
  "(getSyncStatus vs this repo w = None) =
     (case repoOrActive vs this repo of
        None \<Rightarrow> True
      | Some repository \<Rightarrow> HEAD (state repository w) = None)
   \<and> (\<forall>repository h.
         repoOrActive vs this repo = Some repository \<and> HEAD (state repository w) = Some h \<longrightarrow>
           getSyncStatus vs this repo w =
             Some \<lparr> ahead = (case Branch.ahead h of None \<Rightarrow> 0 | Some n \<Rightarrow> int n),
                    behind = (case Branch.behind h of None \<Rightarrow> 0 | Some n \<Rightarrow> int n) \<rparr>)
   \<and> (\<forall>s. getSyncStatus vs this repo w = Some s \<longrightarrow> 0 \<le> ahead s \<and> 0 \<le> behind s)
   \<and> (\<forall>repository h.
         repoOrActive vs this repo = Some repository \<and> HEAD (state repository w) = Some h \<and>
         Branch.ahead h = Some 2 \<and> (Branch.behind h = Some 0 \<or> Branch.behind h = None) \<longrightarrow>
           getSyncStatus vs this repo w = Some \<lparr> ahead = 2, behind = 0 \<rparr>)"
proof (intro conjI allI impI)
  show "(getSyncStatus vs this repo w = None) =
     (case repoOrActive vs this repo of
        None \<Rightarrow> True
      | Some repository \<Rightarrow> HEAD (state repository w) = None)"
    by (simp add: getSyncStatus_def split: option.splits)
next
  fix repository h
  assume "repoOrActive vs this repo = Some repository \<and> HEAD (state repository w) = Some h"
  then show "getSyncStatus vs this repo w =
             Some \<lparr> ahead = (case Branch.ahead h of None \<Rightarrow> 0 | Some n \<Rightarrow> int n),
                    behind = (case Branch.behind h of None \<Rightarrow> 0 | Some n \<Rightarrow> int n) \<rparr>"
    by (simp add: getSyncStatus_def orZero_eq)
next
  fix s
  assume a: "getSyncStatus vs this repo w = Some s"
  have nonneg: "\<And>x. 0 \<le> orZero x"
    by (simp add: orZero_eq split: option.splits)
  from a show "0 \<le> ahead s" and "0 \<le> behind s"
    by (auto simp: getSyncStatus_def nonneg split: option.splits)
next
  fix repository h
  assume "repoOrActive vs this repo = Some repository \<and> HEAD (state repository w) = Some h \<and>
         Branch.ahead h = Some 2 \<and> (Branch.behind h = Some 0 \<or> Branch.behind h = None)"
  then show "getSyncStatus vs this repo w = Some \<lparr> ahead = 2, behind = 0 \<rparr>"
    by (auto simp: getSyncStatus_def orZero_eq)
qed

theorem getSyncStatus_absent_and_counts_witness:
  "repoOrActive demoVSCode demoService None = Some demoRepo
   \<and> HEAD (state demoRepo (twoAheadState, [])) =
       Some \<lparr> name = Some ''main'', upstream = Some ''origin/main'',
              ahead = Some 2, behind = Some 0 \<rparr>
   \<and> getSyncStatus demoVSCode demoService None (twoAheadState, []) =
       Some \<lparr> ahead = 2, behind = 0 \<rparr>
   \<and> getSyncStatus demoVSCode demoService None (cleanState, []) = None"
proof -
  have h: "HEAD (state demoRepo (twoAheadState, [])) =
       Some \<lparr> name = Some ''main'', upstream = Some ''origin/main'',
              ahead = Some 2, behind = Some 0 \<rparr>"
    by (simp add: demo_state twoAheadState_def)
  have c: "HEAD (state demoRepo (cleanState, [])) = None"
    by (simp add: demo_state cleanState_def)
  from getSyncStatus_absent_and_counts [of demoVSCode demoService None "(twoAheadState, [])"]
    demo_bound h
  have two: "getSyncStatus demoVSCode demoService None (twoAheadState, []) =
       Some \<lparr> ahead = 2, behind = 0 \<rparr>"
    by simp
  from getSyncStatus_absent_and_counts [of demoVSCode demoService None "(cleanState, [])"]
    demo_bound c
  have "getSyncStatus demoVSCode demoService None (cleanState, []) = None"
    by simp
  with demo_bound h two show ?thesis by simp
qed

section \<open>Applying a template: properties\<close>

lemma startsWith_append: "startsWith (t @ s) t"
  by (simp add: startsWith_def)

lemma applyTemplate_twice: "applyTemplate (applyTemplate s t) t = applyTemplate s t"
  by (simp add: applyTemplate_def startsWith_append)

lemma startsWith_applyTemplate: "startsWith (applyTemplate s t) t"
  by (simp add: applyTemplate_def startsWith_append)

lemma applyTemplateEach_selected:
  "selectedFiles (applyTemplateEach t ps st) = selectedFiles st"
  by (induction ps arbitrary: st) auto

lemma applyTemplateEach_message:
  "currentMessage (applyTemplateEach t ps st) p =
     (if p \<in> set ps then applyTemplate (currentMessage st p) t else currentMessage st p)"
proof (induction ps arbitrary: st)
  case Nil
  show ?case by simp
next
  case (Cons q ps)
  let ?st1 = "if \<not> startsWith (currentMessage st q) t
              then st\<lparr>commitMessages := (commitMessages st)(q \<mapsto> t @ currentMessage st q)\<rparr>
              else st"
  have one: "currentMessage ?st1 p =
               (if p = q then applyTemplate (currentMessage st q) t else currentMessage st p)"
    by (simp add: currentMessage_def applyTemplate_def)
  have "currentMessage (applyTemplateEach t (q # ps) st) p =
          currentMessage (applyTemplateEach t ps ?st1) p"
    by simp
  also have "\<dots> = (if p \<in> set ps then applyTemplate (currentMessage ?st1 p) t
                    else currentMessage ?st1 p)"
    by (rule Cons.IH)
  also have "\<dots> = (if p \<in> set (q # ps) then applyTemplate (currentMessage st p) t
                    else currentMessage st p)"
    unfolding one by (simp add: applyTemplate_twice)
  finally show ?case .
qed

lemma applyTemplateEach_fixed:
  "\<forall>p \<in> set ps. startsWith (currentMessage st p) t \<Longrightarrow> applyTemplateEach t ps st = st"
  by (induction ps arbitrary: st) auto

text \<open>
  C8. \<open>applyTemplate\<close> returns the message unchanged when it starts with the template and
  the template followed by the message otherwise, and applying it twice is applying it
  once. \<open>applyTemplateToSelected\<close> puts \<open>applyTemplate\<close> of the message in place of the
  message of every selected path and leaves the others, and is idempotent as well.
\<close>

theorem applyTemplate_idempotent:
  "applyTemplate current template =
     (if startsWith current template then current else template @ current)
   \<and> applyTemplate (applyTemplate s t) t = applyTemplate s t
   \<and> currentMessage (applyTemplateToSelected t st) p =
       (if p \<in> set (selectedFiles st) then applyTemplate (currentMessage st p) t
        else currentMessage st p)
   \<and> applyTemplateToSelected t (applyTemplateToSelected t st) = applyTemplateToSelected t st"
proof (intro conjI)
  show "applyTemplate current template =
     (if startsWith current template then current else template @ current)"
    by (simp add: applyTemplate_def)
  show "applyTemplate (applyTemplate s t) t = applyTemplate s t"
    by (rule applyTemplate_twice)
  show "currentMessage (applyTemplateToSelected t st) p =
       (if p \<in> set (selectedFiles st) then applyTemplate (currentMessage st p) t
        else currentMessage st p)"
    by (simp add: applyTemplateToSelected_def applyTemplateEach_message)
  let ?st' = "applyTemplateEach t (selectedFiles st) st"
  have "\<forall>p \<in> set (selectedFiles st). startsWith (currentMessage ?st' p) t"
    by (simp add: applyTemplateEach_message startsWith_applyTemplate)
  then have "applyTemplateEach t (selectedFiles st) ?st' = ?st'"
    by (rule applyTemplateEach_fixed)
  then show "applyTemplateToSelected t (applyTemplateToSelected t st) =
               applyTemplateToSelected t st"
    by (simp add: applyTemplateToSelected_def applyTemplateEach_selected)
qed

theorem applyTemplate_idempotent_witness:
  "applyTemplate ''fix typo'' ''feat: '' = ''feat: fix typo''
   \<and> applyTemplate ''feat: fix typo'' ''feat: '' = ''feat: fix typo''
   \<and> applyTemplate (applyTemplate ''fix typo'' ''feat: '') ''feat: '' =
       applyTemplate ''fix typo'' ''feat: ''"
  using applyTemplate_idempotent [of "''fix typo''" "''feat: ''" "''fix typo''" "''feat: ''"]
    applyTemplate_idempotent [of "''feat: fix typo''" "''feat: ''"]
  by (simp add: startsWith_def)

section \<open>Undo: properties\<close>






end
